theory Spec2Isabelle
  imports Main "HOL-Library.Sublist"
begin

section \<open>Texts\<close>

text \<open>
  The script \<^verbatim>\<open>scripts/fix-api-params.py\<close> works on Python \<^verbatim>\<open>str\<close> values: sequences of
  Unicode code points.  A text is a list of code points; \<open>str\<close> turns an ASCII literal
  into such a list.
\<close>

type_synonym unicode = "nat list"

definition str :: "string \<Rightarrow> unicode" where
  "str s = map of_char s"

text \<open>
  The class \<^verbatim>\<open>\s\<close> of a \<^verbatim>\<open>str\<close> pattern: the code points for which
  \<^verbatim>\<open>str.isspace\<close> holds.
\<close>

definition is_space :: "nat \<Rightarrow> bool" where
  "is_space c \<longleftrightarrow>
     (9 \<le> c \<and> c \<le> 13) \<or> (28 \<le> c \<and> c \<le> 32) \<or> c = 133 \<or> c = 160 \<or> c = 5760 \<or>
     (8192 \<le> c \<and> c \<le> 8202) \<or> c = 8232 \<or> c = 8233 \<or> c = 8239 \<or> c = 8287 \<or> c = 12288"

section \<open>The fragment of regular expressions the script uses\<close>

text \<open>
  The five patterns are sequences of literal characters, \<^verbatim>\<open>\s*\<close> and one negative
  lookahead for a single character, \<^verbatim>\<open>(?!\))\<close>.  \<open>re_match p s\<close> is the length of the
  match of \<open>p\<close> at the start of \<open>s\<close>, found as the backtracking matcher of \<^verbatim>\<open>re\<close> finds it:
  \<^verbatim>\<open>\s*\<close> is greedy, and gives characters back when the rest of the pattern fails.
\<close>

datatype atom = Chr nat | Spaces | NotAhead nat

fun re_match :: "atom list \<Rightarrow> unicode \<Rightarrow> nat option" where
  "re_match [] s = Some 0"
| "re_match (Chr a # p) [] = None"
| "re_match (Chr a # p) (c # cs) = (if c = a then map_option Suc (re_match p cs) else None)"
| "re_match (Spaces # p) [] = re_match p []"
| "re_match (Spaces # p) (c # cs) =
     (if is_space c
      then (case re_match (Spaces # p) cs of
              Some n \<Rightarrow> Some (Suc n)
            | None \<Rightarrow> re_match p (c # cs))
      else re_match p (c # cs))"
| "re_match (NotAhead a # p) [] = re_match p []"
| "re_match (NotAhead a # p) (c # cs) = (if c = a then None else re_match p (c # cs))"

text \<open>
  \<^verbatim>\<open>re.sub(pattern, repl, string)\<close> with a replacement that has no backslash: scanning from
  the left, the leftmost match is replaced by \<open>r\<close> and the scan goes on behind it; a
  character at which the pattern does not match is copied.  (An empty match is replaced
  and the scan moves on by one character; none of the five patterns has one.)
\<close>

fun re_sub :: "atom list \<Rightarrow> unicode \<Rightarrow> unicode \<Rightarrow> unicode" where
  "re_sub p r [] = (case re_match p [] of Some n \<Rightarrow> r | None \<Rightarrow> [])"
| "re_sub p r (c # cs) =
     (case re_match p (c # cs) of
        Some (Suc n) \<Rightarrow> r @ re_sub p r (drop n cs)
      | Some 0 \<Rightarrow> r @ c # re_sub p r cs
      | None \<Rightarrow> c # re_sub p r cs)"

section \<open>The five rules\<close>

definition lit :: "string \<Rightarrow> atom list" where
  "lit s = map (\<lambda>c. Chr (of_char c)) s"

text \<open>\<^verbatim>\<open>r'\{\s*params\s*\}:\s*\{\s*params:\s*\{\s*id:\s*string\s*\}\s*\}'\<close>\<close>

definition pat_A :: "atom list" where
  "pat_A = lit ''{'' @ [Spaces] @ lit ''params'' @ [Spaces] @ lit ''}:'' @ [Spaces] @
     lit ''{'' @ [Spaces] @ lit ''params:'' @ [Spaces] @ lit ''{'' @ [Spaces] @
     lit ''id:'' @ [Spaces] @ lit ''string'' @ [Spaces] @ lit ''}'' @ [Spaces] @ lit ''}''"

definition repl_A :: unicode where
  "repl_A = str ''{ params }: { params: Promise<{ id: string }> }''"

text \<open>\<^verbatim>\<open>r'\{\s*params\s*\}:\s*\{\s*params:\s*\{\s*id:\s*string,\s*roleId:\s*string\s*\}\s*\}'\<close>\<close>

definition pat_B :: "atom list" where
  "pat_B = lit ''{'' @ [Spaces] @ lit ''params'' @ [Spaces] @ lit ''}:'' @ [Spaces] @
     lit ''{'' @ [Spaces] @ lit ''params:'' @ [Spaces] @ lit ''{'' @ [Spaces] @
     lit ''id:'' @ [Spaces] @ lit ''string,'' @ [Spaces] @ lit ''roleId:'' @ [Spaces] @
     lit ''string'' @ [Spaces] @ lit ''}'' @ [Spaces] @ lit ''}''"

definition repl_B :: unicode where
  "repl_B = str ''{ params }: { params: Promise<{ id: string, roleId: string }> }''"

text \<open>\<^verbatim>\<open>r'const id = parseInt\(params\.id\)'\<close>; the replacement has a line feed (code point 10).\<close>

definition pat_C :: "atom list" where
  "pat_C = lit ''const id = parseInt(params.id)''"

definition repl_C :: unicode where
  "repl_C = str ''const { id: paramId } = await params'' @ [10] @
     str ''    const id = parseInt(paramId)''"

text \<open>\<^verbatim>\<open>r'const id = params\.id(?!\))'\<close>; code point 41 is the closing parenthesis.\<close>

definition pat_D :: "atom list" where
  "pat_D = lit ''const id = params.id'' @ [NotAhead 41]"

definition repl_D :: unicode where
  "repl_D = str ''const { id } = await params''"

text \<open>\<^verbatim>\<open>r'const roleId = params\.roleId'\<close>\<close>

definition pat_E :: "atom list" where
  "pat_E = lit ''const roleId = params.roleId''"

definition repl_E :: unicode where
  "repl_E = str ''const { roleId } = await params''"

definition rule_A :: "unicode \<Rightarrow> unicode" where "rule_A = re_sub pat_A repl_A"
definition rule_B :: "unicode \<Rightarrow> unicode" where "rule_B = re_sub pat_B repl_B"
definition rule_C :: "unicode \<Rightarrow> unicode" where "rule_C = re_sub pat_C repl_C"
definition rule_D :: "unicode \<Rightarrow> unicode" where "rule_D = re_sub pat_D repl_D"
definition rule_E :: "unicode \<Rightarrow> unicode" where "rule_E = re_sub pat_E repl_E"

text \<open>
  The body of the loop between reading and comparing: \<^verbatim>\<open>content\<close> is assigned five times,
  each \<^verbatim>\<open>re.sub\<close> reading the value the one before assigned.
\<close>

definition transform :: "unicode \<Rightarrow> unicode" where
  "transform original_content =
     (let content = original_content;
          content = re_sub pat_A repl_A content;
          content = re_sub pat_B repl_B content;
          content = re_sub pat_C repl_C content;
          content = re_sub pat_D repl_D content;
          content = re_sub pat_E repl_E content
      in content)"

section \<open>The run\<close>

text \<open>
  The files are reached through \<^verbatim>\<open>open\<close> only.  A world holds what the script can see of
  the file system and what it leaves behind: for every path what \<^verbatim>\<open>open(path, 'r')\<close>
  followed by \<^verbatim>\<open>read()\<close> gives (the decoded text, or the exception raised), for every
  path the exception that writing it raises (if any), the console output so far and the
  calls of \<^verbatim>\<open>open\<close> so far, oldest first.  The two \<^verbatim>\<open>except\<close> clauses tell
  \<^verbatim>\<open>FileNotFoundError\<close> from every other exception, of which only \<^verbatim>\<open>str(e)\<close> is used.
\<close>

type_synonym path = unicode

datatype exn = FileNotFoundError | OtherException unicode

datatype syscall = OpenRead path | OpenWrite path unicode

record world =
  disk :: "path \<Rightarrow> exn + unicode"
  write_fault :: "path \<Rightarrow> exn option"
  stdout :: unicode
  calls :: "syscall list"

definition files_to_fix :: "path list" where
  "files_to_fix = map str
     [''src/app/api/series/[id]/route.ts'',
      ''src/app/api/warehouses/[id]/route.ts'',
      ''src/app/api/warehouses/[id]/deactivate/route.ts'',
      ''src/app/api/warehouses/[id]/activate/route.ts'',
      ''src/app/api/admin/users/[id]/route.ts'',
      ''src/app/api/admin/users/[id]/roles/route.ts'',
      ''src/app/api/admin/users/[id]/roles/[roleId]/route.ts'',
      ''src/app/api/titles/[id]/stock-threshold/route.ts'',
      ''src/app/api/audit/users/[id]/route.ts'',
      ''src/app/api/inventory/[id]/route.ts'',
      ''src/app/api/inventory/[id]/adjust/route.ts'']"

text \<open>\<^verbatim>\<open>print(s)\<close> writes \<open>s\<close> and a line feed.\<close>

definition py_print :: "unicode \<Rightarrow> world \<Rightarrow> world" where
  "py_print s w = w\<lparr>stdout := stdout w @ s @ [10]\<rparr>"

text \<open>
  The four f-strings.  The markers are U+2705, U+23ED U+FE0F (followed by two blanks)
  and U+274C.
\<close>

definition fixed_msg :: "path \<Rightarrow> unicode" where
  "fixed_msg filepath = [9989] @ str '' Fixed: '' @ filepath"

definition no_changes_msg :: "path \<Rightarrow> unicode" where
  "no_changes_msg filepath = [9197, 65039] @ str ''  No changes: '' @ filepath"

definition not_found_msg :: "path \<Rightarrow> unicode" where
  "not_found_msg filepath = [10060] @ str '' Not found: '' @ filepath"

definition error_msg :: "path \<Rightarrow> unicode \<Rightarrow> unicode" where
  "error_msg filepath e = [10060] @ str '' Error processing '' @ filepath @ str '': '' @ e"

text \<open>
  \<^verbatim>\<open>with open(filepath, 'r') as f: content = f.read()\<close> and
  \<^verbatim>\<open>with open(filepath, 'w') as f: f.write(content)\<close>.  Either returns or raises; a raised
  exception comes with the world it leaves.  A write that raises leaves the file as it
  was (the \<^verbatim>\<open>open\<close> failed); a write that returns leaves exactly \<open>content\<close> in the file.
\<close>

definition read_text :: "path \<Rightarrow> world \<Rightarrow> (exn \<times> world) + (unicode \<times> world)" where
  "read_text filepath w =
     (let w' = w\<lparr>calls := calls w @ [OpenRead filepath]\<rparr>
      in case disk w filepath of
           Inl e \<Rightarrow> Inl (e, w')
         | Inr content \<Rightarrow> Inr (content, w'))"

definition write_text :: "path \<Rightarrow> unicode \<Rightarrow> world \<Rightarrow> (exn \<times> world) + world" where
  "write_text filepath content w =
     (let w' = w\<lparr>calls := calls w @ [OpenWrite filepath content]\<rparr>
      in case write_fault w filepath of
           Some e \<Rightarrow> Inl (e, w')
         | None \<Rightarrow> Inr (w'\<lparr>disk := (disk w')(filepath := Inr content)\<rparr>))"

text \<open>The body of \<^verbatim>\<open>try\<close>.\<close>

definition try_block :: "path \<Rightarrow> world \<Rightarrow> (exn \<times> world) + world" where
  "try_block filepath w =
     (case read_text filepath w of
        Inl raised \<Rightarrow> Inl raised
      | Inr (content, w) \<Rightarrow>
          let original_content = content;
              content = transform content
          in if content \<noteq> original_content
             then (case write_text filepath content w of
                     Inl raised \<Rightarrow> Inl raised
                   | Inr w \<Rightarrow> Inr (py_print (fixed_msg filepath) w))
             else Inr (py_print (no_changes_msg filepath) w))"

text \<open>One turn of the loop: the \<^verbatim>\<open>try\<close> with its two \<^verbatim>\<open>except\<close> clauses.\<close>

definition process_file :: "path \<Rightarrow> world \<Rightarrow> world" where
  "process_file filepath w =
     (case try_block filepath w of
        Inr w' \<Rightarrow> w'
      | Inl (FileNotFoundError, w') \<Rightarrow> py_print (not_found_msg filepath) w'
      | Inl (OtherException e, w') \<Rightarrow> py_print (error_msg filepath e) w')"

text \<open>The script: the loop over \<open>files_to_fix\<close>, then \<^verbatim>\<open>print('\nDone!')\<close>.\<close>

definition main :: "world \<Rightarrow> world" where
  "main w = py_print ([10] @ str ''Done!'') (fold process_file files_to_fix w)"


fun call_path :: "syscall \<Rightarrow> path" where
  "call_path (OpenRead p) = p"
| "call_path (OpenWrite p c) = p"

text \<open>
  What one turn of the loop does for the path \<open>p\<close>, read off the world the run starts in:
  the line it prints, the calls it makes and what the file holds afterwards.
\<close>

definition handler_msg :: "path \<Rightarrow> exn \<Rightarrow> unicode" where
  "handler_msg p e =
     (case e of FileNotFoundError \<Rightarrow> not_found_msg p | OtherException d \<Rightarrow> error_msg p d)"

definition report :: "world \<Rightarrow> path \<Rightarrow> unicode" where
  "report w p =
     (case disk w p of
        Inl e \<Rightarrow> handler_msg p e
      | Inr t \<Rightarrow>
          if transform t = t then no_changes_msg p
          else (case write_fault w p of None \<Rightarrow> fixed_msg p | Some e \<Rightarrow> handler_msg p e))"

definition accesses :: "world \<Rightarrow> path \<Rightarrow> syscall list" where
  "accesses w p =
     (case disk w p of
        Inl e \<Rightarrow> [OpenRead p]
      | Inr t \<Rightarrow> if transform t = t then [OpenRead p] else [OpenRead p, OpenWrite p (transform t)])"

definition stored :: "world \<Rightarrow> path \<Rightarrow> exn + unicode" where
  "stored w p =
     (case disk w p of
        Inl e \<Rightarrow> Inl e
      | Inr t \<Rightarrow> if write_fault w p = None then Inr (transform t) else Inr t)"

text \<open>
  Two worlds to run the script in.  In \<open>sample_world\<close> the first listed file holds a direct
  id read, the second a text no rule matches, the third cannot be read, and no other
  file exists; every write succeeds.  \<open>readonly_world\<close> is the same with every write
  refused.
\<close>

definition sample_world :: world where
  "sample_world =
     \<lparr>disk = (\<lambda>p. if p = str ''src/app/api/series/[id]/route.ts''
                   then Inr (str ''const id = params.id;'')
                   else if p = str ''src/app/api/warehouses/[id]/route.ts''
                   then Inr (str ''export {}'')
                   else if p = str ''src/app/api/warehouses/[id]/deactivate/route.ts''
                   then Inl (OtherException (str ''[Errno 13] Permission denied''))
                   else Inl FileNotFoundError),
      write_fault = (\<lambda>p. None),
      stdout = [],
      calls = []\<rparr>"


section \<open>Occurrences\<close>

text \<open>\<open>occurs p s\<close>: the pattern matches somewhere in \<open>s\<close> (\<^verbatim>\<open>re.search(p, s)\<close> finds a match).\<close>

fun occurs :: "atom list \<Rightarrow> unicode \<Rightarrow> bool" where
  "occurs p [] = (re_match p [] \<noteq> None)"
| "occurs p (c # cs) = (re_match p (c # cs) \<noteq> None \<or> occurs p cs)"

text \<open>
  What ``replacing all non-overlapping occurrences'' says, as a relation between a text
  and its rewriting: going through the text from the left, a match (the first \<open>Suc n\<close>
  characters of what is left) is replaced as a whole and a character at which there is
  no match is kept.
\<close>

inductive replaced :: "atom list \<Rightarrow> unicode \<Rightarrow> unicode \<Rightarrow> unicode \<Rightarrow> bool"
  for p :: "atom list" and r :: unicode where
  replaced_end: "replaced p r [] []"
| replaced_keep: "re_match p (c # s) = None \<Longrightarrow> replaced p r s t \<Longrightarrow> replaced p r (c # s) (c # t)"
| replaced_match:
    "re_match p s = Some (Suc n) \<Longrightarrow> replaced p r (drop (Suc n) s) t \<Longrightarrow> replaced p r s (r @ t)"

code_pred (modes: i \<Rightarrow> i \<Rightarrow> i \<Rightarrow> o \<Rightarrow> bool) replaced .

text \<open>
  The single-id signature with its nine gaps filled: \<open>w1\<close>, ..., \<open>w9\<close> stand where the
  pattern of Rule A has \<^verbatim>\<open>\s*\<close>, that is, where the signature
  \<^verbatim>\<open>{ params }: { params: { id: string } }\<close> is written with a blank.
\<close>

definition spaces :: "unicode \<Rightarrow> bool" where
  "spaces ws \<longleftrightarrow> list_all is_space ws"

definition signature_A ::
  "unicode \<Rightarrow> unicode \<Rightarrow> unicode \<Rightarrow> unicode \<Rightarrow> unicode \<Rightarrow> unicode \<Rightarrow> unicode \<Rightarrow> unicode \<Rightarrow> unicode \<Rightarrow> unicode" where
  "signature_A w1 w2 w3 w4 w5 w6 w7 w8 w9 =
     str ''{'' @ w1 @ str ''params'' @ w2 @ str ''}:'' @ w3 @ str ''{'' @ w4 @ str ''params:'' @ w5 @
     str ''{'' @ w6 @ str ''id:'' @ w7 @ str ''string'' @ w8 @ str ''}'' @ w9 @ str ''}''"

subsection \<open>Notions used in the proofs\<close>

text \<open>
  A pattern is deterministic when each \<^verbatim>\<open>\s*\<close> is followed by a literal character that is
  not white space: then giving characters back never helps.
\<close>

fun wf_pat :: "atom list \<Rightarrow> bool" where
  "wf_pat [] = True"
| "wf_pat (Spaces # Chr a # p) = (\<not> is_space a \<and> wf_pat (Chr a # p))"
| "wf_pat (Spaces # p) = False"
| "wf_pat (x # p) = wf_pat p"

fun only_lookahead :: "atom list \<Rightarrow> bool" where
  "only_lookahead [] = True"
| "only_lookahead (NotAhead a # p) = only_lookahead p"
| "only_lookahead (x # p) = False"

text \<open>\<open>blocked q W\<close>: no rest of the pattern \<open>q\<close> consumes a character of \<open>W\<close>.\<close>

fun blocked :: "atom list \<Rightarrow> unicode \<Rightarrow> bool" where
  "blocked [] W = True"
| "blocked (a # q) W =
     ((re_match (a # q) W = None \<or> re_match (a # q) W = Some 0) \<and> blocked q W)"

text \<open>\<open>inside_free q r w\<close>: \<open>q\<close> matches at no position of \<open>r\<close> in the text \<open>r @ w\<close>.\<close>

fun inside_free :: "atom list \<Rightarrow> unicode \<Rightarrow> unicode \<Rightarrow> bool" where
  "inside_free q [] w = True"
| "inside_free q (c # cs) w = (re_match q (c # cs @ w) = None \<and> inside_free q cs w)"

text \<open>
  \<open>inert q p r\<close>: replacing matches of \<open>p\<close> by \<open>r\<close> cannot create a match of \<open>q\<close>: no match
  of \<open>q\<close> runs into a copy of \<open>r\<close> or starts inside one, and \<open>r\<close> starts with the character
  every match of \<open>p\<close> starts with.
\<close>

definition inert :: "atom list \<Rightarrow> atom list \<Rightarrow> unicode \<Rightarrow> bool" where
  "inert q p r \<longleftrightarrow>
     wf_pat q \<and> re_match q [] = None \<and> (\<exists>h p' r'. p = Chr h # p' \<and> r = h # r') \<and>
     (\<forall>w. blocked q (r @ w) \<and> inside_free q r w)"

section \<open>Matching\<close>

lemma wf_pat_tl: "wf_pat (a # p) \<Longrightarrow> wf_pat p"
  by (induction "a # p" rule: wf_pat.induct) auto

lemma re_match_le: "re_match p s = Some n \<Longrightarrow> n \<le> length s"
  by (induction p s arbitrary: n rule: re_match.induct) (auto split: if_splits option.splits)

lemma spaces_greedy:
  assumes "wf_pat (Spaces # p)" "is_space c"
  shows "re_match (Spaces # p) (c # cs) = map_option Suc (re_match (Spaces # p) cs)"
proof -
  from assms(1) obtain a p' where p: "p = Chr a # p'" "\<not> is_space a"
    by (cases p rule: wf_pat.cases) auto
  with assms(2) have "re_match p (c # cs) = None" by auto
  with assms(2) show ?thesis by (simp split: option.splits)
qed

lemma spaces_nonzero: "wf_pat (Spaces # p) \<Longrightarrow> re_match (Spaces # p) s \<noteq> Some 0"
proof (induction s)
  case Nil
  then show ?case by (cases p rule: wf_pat.cases) auto
next
  case (Cons c cs)
  then show ?case by (cases p rule: wf_pat.cases) (auto split: option.splits)
qed

lemma boundary:
  assumes "wf_pat q"
    and "\<And>q'. suffix q' q \<Longrightarrow> re_match q' W = None \<or> (re_match q' W = Some 0 \<and> re_match q' W' = Some 0)"
    and "re_match q (x @ W) = Some n"
  shows "re_match q (x @ W') = Some n"
  using assms
proof (induction q x arbitrary: n rule: re_match.induct)
  case (1 s)
  then show ?case by simp
next
  case (2 a p)
  from 2(2)[of "Chr a # p"] 2(3) show ?case by auto
next
  case (3 a p c cs)
  from 3(4) obtain m where m: "c = a" "re_match p (cs @ W) = Some m" "n = Suc m"
    by (auto split: if_splits)
  have wf: "wf_pat p" using 3(2) by (rule wf_pat_tl)
  have sf: "\<And>q'. suffix q' p \<Longrightarrow> re_match q' W = None \<or> (re_match q' W = Some 0 \<and> re_match q' W' = Some 0)"
    using 3(3) by (simp add: suffix_ConsI)
  have "re_match p (cs @ W') = Some m"
    by (rule 3(1)[OF m(1) wf sf m(2)])
  with m show ?case by simp
next
  case (4 p)
  from 4(3)[of "Spaces # p"] 4(4) show ?case by auto
next
  case (5 p c cs)
  have wf: "wf_pat p" using 5(4) by (rule wf_pat_tl)
  have sf: "\<And>q'. suffix q' p \<Longrightarrow> re_match q' W = None \<or> (re_match q' W = Some 0 \<and> re_match q' W' = Some 0)"
    using 5(5) by (simp add: suffix_ConsI)
  show ?case
  proof (cases "is_space c")
    case True
    from 5(6) obtain m where m: "re_match (Spaces # p) (cs @ W) = Some m" "n = Suc m"
      using spaces_greedy[OF 5(4) True] by auto
    have "re_match (Spaces # p) (cs @ W') = Some m"
      by (rule 5(1)[OF True 5(4) 5(5) m(1)])
    with m True spaces_greedy[OF 5(4) True] show ?thesis by simp
  next
    case False
    with 5(6) have m: "re_match p ((c # cs) @ W) = Some n" by simp
    have "re_match p ((c # cs) @ W') = Some n"
      by (rule 5(3)[OF False wf sf m])
    with False show ?thesis by simp
  qed
next
  case (6 a p)
  from 6(3)[of "NotAhead a # p"] 6(4) show ?case by auto
next
  case (7 a p c cs)
  have wf: "wf_pat p" using 7(2) by (rule wf_pat_tl)
  have sf: "\<And>q'. suffix q' p \<Longrightarrow> re_match q' W = None \<or> (re_match q' W = Some 0 \<and> re_match q' W' = Some 0)"
    using 7(3) by (simp add: suffix_ConsI)
  from 7(4) have m: "c \<noteq> a" "re_match p ((c # cs) @ W) = Some n" by (auto split: if_splits)
  have "re_match p ((c # cs) @ W') = Some n"
    by (rule 7(1)[OF m(1) wf sf m(2)])
  with m show ?case by simp
qed

lemma wf_pat_suffix: "wf_pat q \<Longrightarrow> suffix q' q \<Longrightarrow> wf_pat q'"
proof (induction q)
  case Nil
  then show ?case by simp
next
  case (Cons a q)
  then show ?case by (auto simp: suffix_Cons dest: wf_pat_tl)
qed

lemma blocked_suffix: "blocked q W \<Longrightarrow> suffix q' q \<Longrightarrow> re_match q' W = None \<or> re_match q' W = Some 0"
  by (induction q) (auto simp: suffix_Cons)

lemma zero_only_lookahead: "wf_pat q \<Longrightarrow> re_match q s = Some 0 \<Longrightarrow> only_lookahead q"
proof (induction q)
  case Nil
  then show ?case by simp
next
  case (Cons a q)
  show ?case
  proof (cases a)
    case (Chr x)
    with Cons(3) show ?thesis by (cases s) (auto split: if_splits)
  next
    case Spaces
    with Cons(2,3) show ?thesis using spaces_nonzero by blast
  next
    case (NotAhead x)
    with Cons(3) have "re_match q s = Some 0" by (cases s) (auto split: if_splits)
    with Cons(1) Cons(2) NotAhead show ?thesis by (auto dest: wf_pat_tl)
  qed
qed

lemma only_lookahead_match:
  "only_lookahead q \<Longrightarrow> re_match q s = (if s \<noteq> [] \<and> NotAhead (hd s) \<in> set q then None else Some 0)"
proof (induction q rule: only_lookahead.induct)
  case 1
  then show ?case by simp
next
  case (2 a p)
  then show ?case by (cases s) auto
qed auto

lemma zero_transfer:
  assumes "wf_pat q" "re_match q (h # w) = Some 0"
  shows "re_match q (h # w') = Some 0"
proof -
  have "only_lookahead q" using assms by (rule zero_only_lookahead)
  then show ?thesis using assms(2) by (simp add: only_lookahead_match split: if_splits)
qed

section \<open>Substitution\<close>

lemma re_sub_no_match: "\<not> occurs p s \<Longrightarrow> re_sub p r s = s"
  by (induction s) auto

lemma occurs_iff: "occurs q s \<longleftrightarrow> (\<exists>z. suffix z s \<and> re_match q z \<noteq> None)"
  by (induction s) (auto simp: suffix_Cons)

lemma through_sub:
  assumes wf: "wf_pat q" and p: "p = Chr h # p'" and r: "r = h # r'"
    and bl: "\<And>w. blocked q (r @ w)"
  shows "re_match q (x @ re_sub p r s) = Some m \<Longrightarrow> re_match q (x @ s) = Some m"
proof (induction s arbitrary: x)
  case Nil
  then show ?case by (simp add: p)
next
  case (Cons c cs)
  show ?case
  proof (cases "re_match p (c # cs)")
    case None
    with Cons(2) have "re_match q ((x @ [c]) @ re_sub p r cs) = Some m" by simp
    then have "re_match q ((x @ [c]) @ cs) = Some m" by (rule Cons(1))
    then show ?thesis by simp
  next
    case (Some k)
    then obtain n where k: "k = Suc n" and ch: "c = h"
      by (auto simp: p split: if_splits)
    from Some k Cons(2) have m: "re_match q (x @ (r @ re_sub p r (drop n cs))) = Some m" by simp
    have "re_match q (x @ (c # cs)) = Some m"
    proof (rule boundary[OF wf _ m])
      fix q' assume sf: "suffix q' q"
      let ?W = "r @ re_sub p r (drop n cs)"
      from blocked_suffix[OF bl sf] have d: "re_match q' ?W = None \<or> re_match q' ?W = Some 0" .
      have "re_match q' ?W = Some 0 \<Longrightarrow> re_match q' (c # cs) = Some 0"
        using zero_transfer[OF wf_pat_suffix[OF wf sf]] by (simp add: r ch)
      with d show "re_match q' ?W = None \<or> (re_match q' ?W = Some 0 \<and> re_match q' (c # cs) = Some 0)"
        by blast
    qed
    then show ?thesis .
  qed
qed

lemma occurs_sub:
  assumes wf: "wf_pat q" and p: "p = Chr h # p'" and r: "r = h # r'"
    and bl: "\<And>w. blocked q (r @ w)"
    and ins: "\<And>z w. suffix z r \<Longrightarrow> z \<noteq> [] \<Longrightarrow> re_match q (z @ w) = None"
    and q: "re_match q [] = None"
  shows "occurs q (re_sub p r s) \<Longrightarrow> \<exists>z. suffix z s \<and> re_match q z \<noteq> None \<and> re_match p z = None"
proof (induction s rule: length_induct)
  case (1 s)
  show ?case
  proof (cases s)
    case Nil
    with 1(2) show ?thesis by (simp add: p q)
  next
    case (Cons c cs)
    show ?thesis
    proof (cases "re_match p (c # cs)")
      case None
      with 1(2) Cons have "re_match q ([c] @ re_sub p r cs) \<noteq> None \<or> occurs q (re_sub p r cs)"
        by simp
      then show ?thesis
      proof
        assume "re_match q ([c] @ re_sub p r cs) \<noteq> None"
        then obtain m where "re_match q ([c] @ re_sub p r cs) = Some m" by blast
        from through_sub[OF wf p r bl this] have "re_match q s \<noteq> None" by (simp add: Cons)
        with None Cons show ?thesis by (intro exI[of _ s]) simp
      next
        assume "occurs q (re_sub p r cs)"
        with 1(1) Cons obtain z where "suffix z cs" "re_match q z \<noteq> None" "re_match p z = None"
          by auto
        with Cons show ?thesis by (auto simp: suffix_Cons)
      qed
    next
      case (Some k)
      then obtain n where k: "k = Suc n" by (auto simp: p split: if_splits)
      let ?u = "re_sub p r (drop n cs)"
      from Some k 1(2) Cons have "occurs q (r @ ?u)" by simp
      then obtain z where z: "suffix z (r @ ?u)" "re_match q z \<noteq> None"
        by (auto simp: occurs_iff)
      from z(1) have "suffix z ?u \<or> (\<exists>z'. z = z' @ ?u \<and> suffix z' r)"
        by (simp only: suffix_append)
      then have "suffix z ?u"
      proof
        assume "\<exists>z'. z = z' @ ?u \<and> suffix z' r"
        then obtain z' where z': "z = z' @ ?u" "suffix z' r" by blast
        show ?thesis
        proof (cases "z' = []")
          case True
          with z' show ?thesis by simp
        next
          case False
          from ins[OF z'(2) False] z(2) z'(1) show ?thesis by simp
        qed
      qed
      with z(2) have "occurs q ?u" by (auto simp: occurs_iff)
      moreover have "length (drop n cs) < length s" by (simp add: Cons)
      ultimately obtain z' where "suffix z' (drop n cs)" "re_match q z' \<noteq> None" "re_match p z' = None"
        using 1(1) by blast
      moreover have "suffix (drop n cs) s" by (simp add: Cons suffix_ConsI suffix_drop)
      ultimately show ?thesis by (meson suffix_order.trans)
    qed
  qed
qed

lemma re_sub_split:
  assumes wf: "wf_pat p" and p: "p = Chr h # p'" and la: "NotAhead h \<notin> set p'"
    and bl: "blocked p' (h # M)"
  shows "re_sub p r (x @ h # M) = re_sub p r x @ re_sub p r (h # M)"
proof (induction x rule: length_induct)
  case (1 x)
  show ?case
  proof (cases x)
    case Nil
    then show ?thesis by (simp add: p)
  next
    case (Cons c cs)
    have wf': "wf_pat p'" using wf p wf_pat_tl by blast
    have eq: "re_match p' (cs @ h # M) = re_match p' cs"
    proof -
      have a: "re_match p' (cs @ h # M) = Some n \<Longrightarrow> re_match p' (cs @ []) = Some n" for n
      proof (rule boundary[OF wf'])
        fix q' assume sf: "suffix q' p'"
        from blocked_suffix[OF bl sf]
        have d: "re_match q' (h # M) = None \<or> re_match q' (h # M) = Some 0" .
        have "re_match q' (h # M) = Some 0 \<Longrightarrow> re_match q' [] = Some 0"
          using zero_only_lookahead[OF wf_pat_suffix[OF wf' sf]] only_lookahead_match by fastforce
        with d show "re_match q' (h # M) = None \<or> (re_match q' (h # M) = Some 0 \<and> re_match q' [] = Some 0)"
          by blast
      qed
      have b: "re_match p' (cs @ []) = Some n \<Longrightarrow> re_match p' (cs @ h # M) = Some n" for n
      proof (rule boundary[OF wf'])
        fix q' assume sf: "suffix q' p'"
        have "re_match q' [] = None \<or> re_match q' [] = Some 0"
          using re_match_le[of q' "[]"] by (cases "re_match q' []") auto
        moreover have "re_match q' (h # M) = Some 0" if "re_match q' [] = Some 0"
        proof -
          have ol: "only_lookahead q'"
            using zero_only_lookahead[OF wf_pat_suffix[OF wf' sf] that] .
          have "NotAhead h \<notin> set q'" using la sf by (meson set_mono_suffix subsetD)
          with ol show ?thesis by (simp add: only_lookahead_match)
        qed
        ultimately show "re_match q' [] = None \<or> (re_match q' [] = Some 0 \<and> re_match q' (h # M) = Some 0)"
          by blast
      qed
      show ?thesis
      proof (cases "re_match p' cs")
        case None
        with a show ?thesis by (cases "re_match p' (cs @ h # M)") auto
      next
        case (Some n)
        with b show ?thesis by simp
      qed
    qed
    have eq': "re_match p ((c # cs) @ h # M) = re_match p (c # cs)"
      using eq by (simp add: p)
    show ?thesis
    proof (cases "re_match p (c # cs)")
      case None
      with eq' 1 Cons show ?thesis by simp
    next
      case (Some k)
      then obtain n where k: "k = Suc n" by (auto simp: p split: if_splits)
      from Some k have "Suc n \<le> length (c # cs)" by (auto dest: re_match_le)
      then have n: "n \<le> length cs" by simp
      have "length (drop n cs) < length x" by (simp add: Cons)
      with 1 have "re_sub p r (drop n cs @ h # M) = re_sub p r (drop n cs) @ re_sub p r (h # M)"
        by blast
      with Some k eq' n Cons show ?thesis by simp
    qed
  qed
qed

lemma inside_free_suffix:
  "inside_free q r w \<Longrightarrow> suffix z r \<Longrightarrow> z \<noteq> [] \<Longrightarrow> re_match q (z @ w) = None"
  by (induction r) (auto simp: suffix_Cons)

lemma inert_occurs:
  assumes "inert q p r" "occurs q (re_sub p r s)"
  shows "\<exists>z. suffix z s \<and> re_match q z \<noteq> None \<and> re_match p z = None"
proof -
  from assms(1) obtain h p' r' where "wf_pat q" "re_match q [] = None" "p = Chr h # p'" "r = h # r'"
    and "\<And>w. blocked q (r @ w)" and i: "\<And>w. inside_free q r w"
    unfolding inert_def by blast
  then show ?thesis
    using assms(2) inside_free_suffix[OF i] by (intro occurs_sub) auto
qed

lemma inert_self: "inert p p r \<Longrightarrow> \<not> occurs p (re_sub p r s)"
  using inert_occurs by blast

lemma inert_other: "inert q p r \<Longrightarrow> \<not> occurs q s \<Longrightarrow> \<not> occurs q (re_sub p r s)"
  using inert_occurs occurs_iff by blast

section \<open>The rules do not feed each other\<close>

lemmas pat_defs = pat_A_def pat_B_def pat_C_def pat_D_def pat_E_def lit_def
lemmas repl_defs = repl_A_def repl_B_def repl_C_def repl_D_def repl_E_def str_def

text \<open>Every pattern starts with a literal character, so no match is empty.\<close>

lemma no_empty_match:
  assumes "p \<in> {pat_A, pat_B, pat_C, pat_D, pat_E}"
  shows "re_match p s \<noteq> Some 0"
proof -
  from assms obtain h p' where "p = Chr h # p'" by (auto simp: pat_defs)
  then show ?thesis by (cases s) auto
qed

lemma inert_AA: "inert pat_A pat_A repl_A" by (simp add: inert_def pat_defs repl_defs is_space_def)
lemma inert_AB: "inert pat_A pat_B repl_B" by (simp add: inert_def pat_defs repl_defs is_space_def)
lemma inert_AC: "inert pat_A pat_C repl_C" by (simp add: inert_def pat_defs repl_defs is_space_def)
lemma inert_AD: "inert pat_A pat_D repl_D" by (simp add: inert_def pat_defs repl_defs is_space_def)
lemma inert_AE: "inert pat_A pat_E repl_E" by (simp add: inert_def pat_defs repl_defs is_space_def)
lemma inert_BB: "inert pat_B pat_B repl_B" by (simp add: inert_def pat_defs repl_defs is_space_def)
lemma inert_BC: "inert pat_B pat_C repl_C" by (simp add: inert_def pat_defs repl_defs is_space_def)
lemma inert_BD: "inert pat_B pat_D repl_D" by (simp add: inert_def pat_defs repl_defs is_space_def)
lemma inert_BE: "inert pat_B pat_E repl_E" by (simp add: inert_def pat_defs repl_defs is_space_def)
lemma inert_CC: "inert pat_C pat_C repl_C" by (simp add: inert_def pat_defs repl_defs is_space_def)
lemma inert_CD: "inert pat_C pat_D repl_D" by (simp add: inert_def pat_defs repl_defs is_space_def)
lemma inert_CE: "inert pat_C pat_E repl_E" by (simp add: inert_def pat_defs repl_defs is_space_def)
lemma inert_DD: "inert pat_D pat_D repl_D" by (simp add: inert_def pat_defs repl_defs is_space_def)
lemma inert_DE: "inert pat_D pat_E repl_E" by (simp add: inert_def pat_defs repl_defs is_space_def)
lemma inert_EE: "inert pat_E pat_E repl_E" by (simp add: inert_def pat_defs repl_defs is_space_def)

lemma transform_rules: "transform t = rule_E (rule_D (rule_C (rule_B (rule_A t))))"
  by (simp add: transform_def rule_A_def rule_B_def rule_C_def rule_D_def rule_E_def)

lemma transform_clean:
  "\<not> occurs pat_A (transform t)" "\<not> occurs pat_B (transform t)" "\<not> occurs pat_C (transform t)"
  "\<not> occurs pat_D (transform t)" "\<not> occurs pat_E (transform t)"
  unfolding transform_def Let_def
  by (intro inert_other[OF inert_AE] inert_other[OF inert_AD] inert_other[OF inert_AC]
        inert_other[OF inert_AB] inert_self[OF inert_AA]
        inert_other[OF inert_BE] inert_other[OF inert_BD] inert_other[OF inert_BC] inert_self[OF inert_BB]
        inert_other[OF inert_CE] inert_other[OF inert_CD] inert_self[OF inert_CC]
        inert_other[OF inert_DE] inert_self[OF inert_DD] inert_self[OF inert_EE])+

lemma clean_fixed:
  assumes "\<not> occurs pat_A t" "\<not> occurs pat_B t" "\<not> occurs pat_C t" "\<not> occurs pat_D t" "\<not> occurs pat_E t"
  shows "transform t = t"
  using assms by (simp add: transform_def re_sub_no_match)

lemma transform_idem: "transform (transform t) = transform t"
  by (intro clean_fixed transform_clean)

section \<open>What a rule does to an occurrence\<close>

lemma re_sub_at_match:
  assumes "re_match p (m @ y) = Some (length m)" "m \<noteq> []"
  shows "re_sub p r (m @ y) = r @ re_sub p r y"
proof -
  from assms(2) obtain c cs where m: "m = c # cs" by (cases m) auto
  with assms(1) show ?thesis by simp
qed

lemma spaces_step:
  assumes "\<not> is_space a" "is_space c"
  shows "re_match (Spaces # Chr a # p) (c # cs) = map_option Suc (re_match (Spaces # Chr a # p) cs)"
  using assms by (auto split: option.splits)

lemma skip_spaces:
  assumes "\<forall>x\<in>set ws. is_space x" "\<not> is_space a"
  shows "re_match (Spaces # Chr a # p) (ws @ t) = map_option ((+) (length ws)) (re_match (Spaces # Chr a # p) t)"
  using assms(1)
proof (induction ws)
  case Nil
  then show ?case by (simp add: option.map_ident)
next
  case (Cons c ws)
  then have "re_match (Spaces # Chr a # p) (c # ws @ t) = map_option Suc (re_match (Spaces # Chr a # p) (ws @ t))"
    using assms(2) by (intro spaces_step) auto
  with Cons show ?case by (simp add: option.map_comp comp_def)
qed

lemma skip_spaces_Cons:
  assumes "\<forall>x\<in>set ws. is_space x" "\<not> is_space a" "\<not> is_space c"
  shows "re_match (Spaces # Chr a # p) (ws @ c # t) = map_option ((+) (length ws)) (re_match (Chr a # p) (c # t))"
  using skip_spaces[OF assms(1,2)] assms(3) by simp

lemma chr_spaces:
  assumes "\<forall>x\<in>set ws. is_space x" "\<not> is_space a" "a \<noteq> c"
  shows "re_match (Chr a # p) (ws @ c # t) = None"
  using assms by (cases ws) auto

lemma chr_after_spaces:
  assumes "ws \<noteq> []" "\<forall>x\<in>set ws. is_space x" "\<not> is_space a"
  shows "re_match (Chr a # p) (ws @ t) = None"
  using assms by (cases ws) auto

lemma pat_A_needs_colon:
  assumes "spaces w1" "spaces w2" "spaces w3" "spaces w4" "spaces w5" "spaces w6"
    and "spaces v" "v \<noteq> []"
  shows "re_match pat_A (str ''{'' @ w1 @ str ''params'' @ w2 @ str ''}'' @ v @ z) = None"
    and "re_match pat_A (str ''{'' @ w1 @ str ''params'' @ w2 @ str ''}:'' @ w3 @ str ''{'' @ w4 @
           str ''params'' @ v @ z) = None"
    and "re_match pat_A (str ''{'' @ w1 @ str ''params'' @ w2 @ str ''}:'' @ w3 @ str ''{'' @ w4 @
           str ''params:'' @ w5 @ str ''{'' @ w6 @ str ''id'' @ v @ z) = None"
proof -
  have sp: "\<forall>x\<in>set w1. is_space x" "\<forall>x\<in>set w2. is_space x" "\<forall>x\<in>set w3. is_space x"
    "\<forall>x\<in>set w4. is_space x" "\<forall>x\<in>set w5. is_space x" "\<forall>x\<in>set w6. is_space x"
    "\<forall>x\<in>set v. is_space x"
    using assms by (simp_all add: spaces_def list_all_iff)
  have c: "re_match (Chr 58 # p) (v @ t) = None" for p t
    using assms(8) sp(7) by (rule chr_after_spaces) (simp add: is_space_def)
  show "re_match pat_A (str ''{'' @ w1 @ str ''params'' @ w2 @ str ''}'' @ v @ z) = None"
    using sp by (simp add: pat_A_def lit_def str_def skip_spaces_Cons is_space_def c)
  show "re_match pat_A (str ''{'' @ w1 @ str ''params'' @ w2 @ str ''}:'' @ w3 @ str ''{'' @ w4 @
           str ''params'' @ v @ z) = None"
    using sp by (simp add: pat_A_def lit_def str_def skip_spaces_Cons is_space_def c)
  show "re_match pat_A (str ''{'' @ w1 @ str ''params'' @ w2 @ str ''}:'' @ w3 @ str ''{'' @ w4 @
           str ''params:'' @ w5 @ str ''{'' @ w6 @ str ''id'' @ v @ z) = None"
    using sp by (simp add: pat_A_def lit_def str_def skip_spaces_Cons is_space_def c)
qed

lemma re_sub_barrier:
  assumes "wf_pat p" "p \<noteq> []" "m \<noteq> []" "hd p = Chr (hd m)" "NotAhead (hd m) \<notin> set (tl p)"
    and "blocked (tl p) m"
  shows "re_sub p r (x @ m) = re_sub p r x @ re_sub p r m"
proof -
  from assms(3) obtain h M where m: "m = h # M" by (cases m) auto
  with assms(2,4) have p: "p = Chr h # tl p" by (cases p) auto
  show ?thesis
    unfolding m using assms(1) p assms(5,6)[unfolded m] by (intro re_sub_split) auto
qed

lemma rule_C_occurrence: "rule_C (x @ str ''const id = parseInt(params.id)'' @ y) = rule_C x @ repl_C @ rule_C y"
proof -
  have "re_sub pat_C repl_C (x @ str ''const id = parseInt(params.id)'' @ y) = re_sub pat_C repl_C x @ re_sub pat_C repl_C (str ''const id = parseInt(params.id)'' @ y)"
    by (rule re_sub_barrier) (simp_all add: pat_C_def lit_def str_def)
  moreover have "re_sub pat_C repl_C (str ''const id = parseInt(params.id)'' @ y) = repl_C @ re_sub pat_C repl_C y"
    by (rule re_sub_at_match) (simp_all add: pat_C_def lit_def str_def)
  ultimately show ?thesis by (simp add: rule_C_def)
qed

lemma rule_D_split: "rule_D (x @ str ''const id = params.id'' @ y) = rule_D x @ rule_D (str ''const id = params.id'' @ y)"
  unfolding rule_D_def
  by (rule re_sub_barrier) (simp_all add: pat_D_def lit_def str_def)

lemma rule_D_followed: "rule_D (x @ str ''const id = params.id'' @ 41 # y) = rule_D x @ str ''const id = params.id'' @ 41 # rule_D y"
proof -
  have "rule_D (str ''const id = params.id'' @ 41 # y) = str ''const id = params.id'' @ 41 # rule_D y"
    by (simp add: rule_D_def pat_D_def lit_def str_def)
  then show ?thesis by (simp add: rule_D_split)
qed

lemma rule_D_not_followed:
  assumes "y = [] \<or> hd y \<noteq> 41"
  shows "rule_D (x @ str ''const id = params.id'' @ y) = rule_D x @ repl_D @ rule_D y"
proof -
  have "re_sub pat_D repl_D (str ''const id = params.id'' @ y) = repl_D @ re_sub pat_D repl_D y"
  proof (rule re_sub_at_match)
    show "re_match pat_D (str ''const id = params.id'' @ y) = Some (length (str ''const id = params.id''))"
      using assms by (cases y) (simp_all add: pat_D_def lit_def str_def)
  qed (simp add: str_def)
  then show ?thesis using rule_D_split[of x y] by (simp add: rule_D_def)
qed

lemma pat_A_matches_signature:
  assumes "spaces w1" "spaces w2" "spaces w3" "spaces w4" "spaces w5" "spaces w6" "spaces w7" "spaces w8" "spaces w9"
  shows "re_match pat_A (signature_A w1 w2 w3 w4 w5 w6 w7 w8 w9 @ y) =
     Some (length (signature_A w1 w2 w3 w4 w5 w6 w7 w8 w9))"
proof -
  have sp: "\<forall>x\<in>set w1. is_space x" "\<forall>x\<in>set w2. is_space x" "\<forall>x\<in>set w3. is_space x"
    "\<forall>x\<in>set w4. is_space x" "\<forall>x\<in>set w5. is_space x" "\<forall>x\<in>set w6. is_space x"
    "\<forall>x\<in>set w7. is_space x" "\<forall>x\<in>set w8. is_space x" "\<forall>x\<in>set w9. is_space x"
    using assms by (simp_all add: spaces_def list_all_iff)
  then show ?thesis
    by (simp add: pat_A_def signature_A_def lit_def str_def skip_spaces_Cons is_space_def)
qed

lemma rule_A_occurrence:
  assumes "spaces w1" "spaces w2" "spaces w3" "spaces w4" "spaces w5" "spaces w6" "spaces w7" "spaces w8" "spaces w9"
  shows "rule_A (x @ signature_A w1 w2 w3 w4 w5 w6 w7 w8 w9 @ y) = rule_A x @ repl_A @ rule_A y"
proof -
  let ?m = "signature_A w1 w2 w3 w4 w5 w6 w7 w8 w9"
  have sp: "\<forall>x\<in>set w1. is_space x" "\<forall>x\<in>set w2. is_space x" "\<forall>x\<in>set w3. is_space x"
    "\<forall>x\<in>set w4. is_space x" "\<forall>x\<in>set w5. is_space x" "\<forall>x\<in>set w6. is_space x"
    "\<forall>x\<in>set w7. is_space x" "\<forall>x\<in>set w8. is_space x" "\<forall>x\<in>set w9. is_space x"
    using assms by (simp_all add: spaces_def list_all_iff)
  have "re_sub pat_A repl_A (x @ ?m @ y) = re_sub pat_A repl_A x @ re_sub pat_A repl_A (?m @ y)"
  proof (rule re_sub_barrier)
    show "blocked (tl pat_A) (?m @ y)"
      using sp by (simp add: pat_A_def signature_A_def lit_def str_def skip_spaces_Cons chr_spaces is_space_def)
  qed (simp_all add: pat_A_def signature_A_def lit_def str_def is_space_def)
  moreover have "re_sub pat_A repl_A (?m @ y) = repl_A @ re_sub pat_A repl_A y"
  proof (rule re_sub_at_match)
    show "re_match pat_A (?m @ y) = Some (length ?m)"
      using assms by (rule pat_A_matches_signature)
  qed (simp add: signature_A_def str_def)
  ultimately show ?thesis by (simp add: rule_A_def)
qed

section \<open>The run, file by file\<close>

lemma process_file_eq:
  "process_file p w =
     w\<lparr>disk := (disk w)(p := stored w p), stdout := stdout w @ report w p @ [10],
       calls := calls w @ accesses w p\<rparr>"
proof (cases "disk w p")
  case (Inl e)
  then have "(disk w)(p := Inl e) = disk w" by auto
  with Inl show ?thesis
    by (cases e) (simp_all add: process_file_def try_block_def read_text_def py_print_def
        report_def accesses_def stored_def handler_msg_def)
next
  case (Inr t)
  then have same: "(disk w)(p := Inr t) = disk w" by auto
  show ?thesis
  proof (cases "transform t = t")
    case True
    with Inr same show ?thesis
      by (simp add: process_file_def try_block_def read_text_def py_print_def
          report_def accesses_def stored_def)
  next
    case False
    show ?thesis
    proof (cases "write_fault w p")
      case None
      with Inr False show ?thesis
        by (simp add: process_file_def try_block_def read_text_def write_text_def py_print_def
            report_def accesses_def stored_def Let_def)
    next
      case (Some e)
      with Inr False same show ?thesis
        by (cases e) (simp_all add: process_file_def try_block_def read_text_def write_text_def
            py_print_def report_def accesses_def stored_def handler_msg_def)
    qed
  qed
qed

lemma fold_process_file:
  "distinct ps \<Longrightarrow>
   fold process_file ps w =
     w\<lparr>disk := (\<lambda>p. if p \<in> set ps then stored w p else disk w p),
       stdout := stdout w @ concat (map (\<lambda>p. report w p @ [10]) ps),
       calls := calls w @ concat (map (accesses w) ps)\<rparr>"
proof (induction ps arbitrary: w)
  case Nil
  then show ?case by simp
next
  case (Cons a ps)
  let ?w = "process_file a w"
  have d: "disk ?w = (disk w)(a := stored w a)" and f: "write_fault ?w = write_fault w"
    by (simp_all add: process_file_eq)
  have keep: "report ?w p = report w p \<and> accesses ?w p = accesses w p \<and> stored ?w p = stored w p"
    if "p \<in> set ps" for p
  proof -
    from that Cons(2) have "p \<noteq> a" by auto
    then show ?thesis by (simp add: report_def accesses_def stored_def d f split: sum.splits)
  qed
  have 1: "map (\<lambda>p. report ?w p @ [10]) ps = map (\<lambda>p. report w p @ [10]) ps"
    and 2: "map (accesses ?w) ps = map (accesses w) ps"
    using keep by simp_all
  have 3: "(\<lambda>p. if p \<in> set ps then stored ?w p else disk ?w p)
         = (\<lambda>p. if p \<in> set (a # ps) then stored w p else disk w p)"
    using keep Cons(2) by (auto simp: d fun_eq_iff)
  from Cons(2) have "distinct ps" by simp
  from Cons(1)[OF this, of ?w] show ?case
    by (simp add: 1 2 3) (simp add: process_file_eq)
qed

lemma distinct_files: "distinct files_to_fix"
  by (simp add: files_to_fix_def str_def)

lemma main_eq:
  "main w =
     w\<lparr>disk := (\<lambda>p. if p \<in> set files_to_fix then stored w p else disk w p),
       stdout := stdout w @ concat (map (\<lambda>p. report w p @ [10]) files_to_fix) @ [10] @ str ''Done!'' @ [10],
       calls := calls w @ concat (map (accesses w) files_to_fix)\<rparr>"
  by (simp add: main_def fold_process_file[OF distinct_files] py_print_def)


lemma process_file_unchanged:
  assumes "disk w p = Inr t" "transform t = t"
  shows "process_file p w =
     w\<lparr>stdout := stdout w @ no_changes_msg p @ [10], calls := calls w @ [OpenRead p]\<rparr>"
proof -
  from assms have "(disk w)(p := Inr t) = disk w" by auto
  with assms show ?thesis
    by (simp add: process_file_eq stored_def report_def accesses_def)
qed

lemma process_file_fixed:
  assumes "disk w p = Inr t" "transform t \<noteq> t" "write_fault w p = None"
  shows "process_file p w =
     w\<lparr>disk := (disk w)(p := Inr (transform t)), stdout := stdout w @ fixed_msg p @ [10],
       calls := calls w @ [OpenRead p, OpenWrite p (transform t)]\<rparr>"
  using assms by (simp add: process_file_eq stored_def report_def accesses_def)


lemma loop_reaches:
  assumes "files_to_fix = before @ p # after"
  shows "disk (fold process_file before w) p = disk w p"
    and "write_fault (fold process_file before w) p = write_fault w p"
proof -
  have "distinct (before @ p # after)" using distinct_files by (simp only: assms)
  then have d: "distinct before" and n: "p \<notin> set before" by auto
  show "disk (fold process_file before w) p = disk w p"
    using n by (simp add: fold_process_file[OF d])
  show "write_fault (fold process_file before w) p = write_fault w p"
    by (simp add: fold_process_file[OF d])
qed

lemma run_calls:
  "drop (length (calls w)) (calls (main w)) = concat (map (accesses w) files_to_fix)"
  by (simp add: main_eq)

lemma accesses_path: "c \<in> set (accesses w p) \<Longrightarrow> call_path c = p"
  by (auto simp: accesses_def split: sum.splits if_splits)



lemma replaced_iff:
  assumes "p = Chr h # p'"
  shows "replaced p r s t \<longleftrightarrow> t = re_sub p r s"
proof
  assume "replaced p r s t"
  then show "t = re_sub p r s"
  proof (induction rule: replaced.induct)
    case replaced_end
    show ?case by (simp add: assms)
  next
    case (replaced_keep c s t)
    then show ?case by simp
  next
    case (replaced_match s n t)
    from replaced_match(1) have "s \<noteq> []" by (auto dest: re_match_le)
    then obtain c cs where "s = c # cs" by (cases s) auto
    with replaced_match show ?case by simp
  qed
next
  have "replaced p r s (re_sub p r s)"
  proof (induction s rule: length_induct)
    case (1 s)
    show ?case
    proof (cases s)
      case Nil
      then show ?thesis by (simp add: assms replaced_end)
    next
      case (Cons c cs)
      show ?thesis
      proof (cases "re_match p (c # cs)")
        case None
        moreover have "replaced p r cs (re_sub p r cs)" using 1 Cons by simp
        ultimately show ?thesis using Cons by (simp add: replaced_keep)
      next
        case (Some k)
        then obtain n where k: "k = Suc n" by (auto simp: assms split: if_splits)
        have "replaced p r (drop (Suc n) s) (re_sub p r (drop (Suc n) s))"
          using 1 Cons by simp
        with Some k Cons show ?thesis
          using replaced_match[of p s n r "re_sub p r (drop (Suc n) s)"] by simp
      qed
    qed
  qed
  then show "t = re_sub p r s \<Longrightarrow> replaced p r s t" by simp
qed





lemma four_blanks: "replicate 4 (32::nat) = [32, 32, 32, 32]"
  by code_simp

section \<open>The claims\<close>

text \<open>
  C1.  The transform is idempotent: transforming a transformed text changes nothing.  No
  rule's pattern matches anywhere in that rule's replacement text.  And for a listed file
  that can be read and written, the first run leaves the transformed text in the file,
  and a second run, started in the world the first one left, makes no write to that file;
  the turn of its loop for that file reads the file and prints the ``No changes'' line,
  and does nothing else.
\<close>

theorem transform_idempotent:
  "transform (transform t) = transform t \<and>
   \<not> occurs pat_A repl_A \<and> \<not> occurs pat_B repl_B \<and> \<not> occurs pat_C repl_C \<and>
   \<not> occurs pat_D repl_D \<and> \<not> occurs pat_E repl_E \<and>
   (p \<in> set files_to_fix \<and> disk w p = Inr t \<and> write_fault w p = None \<longrightarrow>
      disk (main w) p = Inr (transform t) \<and>
      (\<forall>c. OpenWrite p c \<notin> set (drop (length (calls (main w))) (calls (main (main w))))) \<and>
      (\<forall>before after. files_to_fix = before @ p # after \<longrightarrow>
         process_file p (fold process_file before (main w)) =
           (fold process_file before (main w))
             \<lparr>stdout := stdout (fold process_file before (main w)) @ no_changes_msg p @ [10],
               calls := calls (fold process_file before (main w)) @ [OpenRead p]\<rparr>))"
proof (intro conjI impI allI)
  show "transform (transform t) = transform t" by (rule transform_idem)
  show "\<not> occurs pat_A repl_A" by (simp add: pat_defs repl_defs is_space_def)
  show "\<not> occurs pat_B repl_B" by (simp add: pat_defs repl_defs is_space_def)
  show "\<not> occurs pat_C repl_C" by (simp add: pat_defs repl_defs)
  show "\<not> occurs pat_D repl_D" by (simp add: pat_defs repl_defs)
  show "\<not> occurs pat_E repl_E" by (simp add: pat_defs repl_defs)
next
  assume a: "p \<in> set files_to_fix \<and> disk w p = Inr t \<and> write_fault w p = None"
  then show d: "disk (main w) p = Inr (transform t)"
    by (simp add: main_eq stored_def)
  {
    fix c
    show "OpenWrite p c \<notin> set (drop (length (calls (main w))) (calls (main (main w))))"
    proof
      assume "OpenWrite p c \<in> set (drop (length (calls (main w))) (calls (main (main w))))"
      then obtain q where "OpenWrite p c \<in> set (accesses (main w) q)"
        unfolding run_calls by auto
      moreover from this have "q = p" by (auto dest: accesses_path)
      ultimately show False
        by (simp add: accesses_def d transform_idem)
    qed
  }
  {
    fix before after
    assume f: "files_to_fix = before @ p # after"
    let ?w = "fold process_file before (main w)"
    have "disk ?w p = Inr (transform t)"
      using loop_reaches(1)[OF f] d by simp
    then show "process_file p ?w =
        ?w\<lparr>stdout := stdout ?w @ no_changes_msg p @ [10], calls := calls ?w @ [OpenRead p]\<rparr>"
      by (rule process_file_unchanged) (rule transform_idem)
  }
qed

theorem transform_idempotent_witness:
  "transform (transform (str ''const id = params.id;'')) = str ''const { id } = await params;'' \<and>
   disk (main sample_world) (str ''src/app/api/series/[id]/route.ts'') =
     Inr (str ''const { id } = await params;'')"
proof -
  have t: "transform (str ''const id = params.id;'') = str ''const { id } = await params;''"
    by (simp add: transform_def pat_defs repl_defs)
  have "str ''src/app/api/series/[id]/route.ts'' \<in> set files_to_fix"
    by (simp add: files_to_fix_def)
  moreover have "disk sample_world (str ''src/app/api/series/[id]/route.ts'') =
      Inr (str ''const id = params.id;'')"
    "write_fault sample_world (str ''src/app/api/series/[id]/route.ts'') = None"
    by (simp_all add: sample_world_def)
  ultimately show ?thesis
    using transform_idempotent[of "str ''const id = params.id;''"
        "str ''src/app/api/series/[id]/route.ts''" sample_world]
    by (simp only: t simp_thms)
qed

text \<open>
  C2.  Rule D replaces an occurrence of \<^verbatim>\<open>const id = params.id\<close> by
  \<^verbatim>\<open>const { id } = await params\<close> exactly when no closing parenthesis follows it
  at once: for every text \<open>x\<close> before the occurrence and every text \<open>y\<close> behind it, the
  occurrence is replaced when \<open>y\<close> does not start with \<^verbatim>\<open>)\<close>, and it stays as it is
  when a \<^verbatim>\<open>)\<close> follows.  In both cases the texts before and behind are rewritten by the
  rule on their own (two occurrences never overlap), and in the text the rule returns
  the pattern matches nowhere: every occurrence left there has a \<^verbatim>\<open>)\<close> behind it.
\<close>

theorem rule_D_rewrites_unless_parenthesis_follows:
  "(\<not> prefix (str '')'') y \<longrightarrow>
      rule_D (x @ str ''const id = params.id'' @ y) =
        rule_D x @ str ''const { id } = await params'' @ rule_D y) \<and>
   rule_D (x @ str ''const id = params.id'' @ str '')'' @ y) =
     rule_D x @ str ''const id = params.id'' @ str '')'' @ rule_D y \<and>
   \<not> occurs pat_D (rule_D s)"
proof (intro conjI impI)
  show "\<not> occurs pat_D (rule_D s)"
    unfolding rule_D_def using inert_DD by (rule inert_self)
next
  assume "\<not> prefix (str '')'') y"
  then have "y = [] \<or> hd y \<noteq> 41" by (cases y) (simp_all add: str_def)
  then have "rule_D (x @ str ''const id = params.id'' @ y) = rule_D x @ repl_D @ rule_D y"
    by (rule rule_D_not_followed)
  then show "rule_D (x @ str ''const id = params.id'' @ y) =
      rule_D x @ str ''const { id } = await params'' @ rule_D y"
    by (simp only: repl_D_def)
next
  have "str '')'' @ y = 41 # y" and "str '')'' @ rule_D y = 41 # rule_D y"
    by (simp_all add: str_def)
  then show "rule_D (x @ str ''const id = params.id'' @ str '')'' @ y) =
      rule_D x @ str ''const id = params.id'' @ str '')'' @ rule_D y"
    by (simp only: rule_D_followed)
qed

theorem rule_D_rewrites_unless_parenthesis_follows_witness:
  "\<not> prefix (str '')'') (str ''; f(const id = params.id) }'') \<and>
   rule_D (str ''{ '' @ str ''const id = params.id'' @ str ''; f(const id = params.id) }'') =
     str ''{ const { id } = await params; f(const id = params.id) }''"
proof -
  have "rule_D (str ''{ '') = str ''{ ''"
    "rule_D (str ''; f(const id = params.id) }'') = str ''; f(const id = params.id) }''"
    by (simp_all add: rule_D_def pat_defs repl_defs)
  moreover have "\<not> prefix (str '')'') (str ''; f(const id = params.id) }'')"
    by (simp add: str_def)
  ultimately show ?thesis
    using rule_D_rewrites_unless_parenthesis_follows[of "str ''; f(const id = params.id) }''"
        "str ''{ ''" "[]"]
    by (simp add: str_def)
qed

text \<open>
  C3.  Rule C replaces every occurrence of the statement
  \<^verbatim>\<open>const id = parseInt(params.id)\<close>, wherever it stands in the text, by the statement
  \<^verbatim>\<open>const { id: paramId } = await params\<close>, a line feed, four blanks and the statement
  \<^verbatim>\<open>const id = parseInt(paramId)\<close>; what stands before and behind the occurrence is
  rewritten by the rule on its own, and no occurrence is left in the text the rule
  returns.  The rules after Rule C leave the two lines alone: the whole transform turns
  the statement into them.
\<close>

theorem rule_C_rewrites_parseInt_read:
  "rule_C (x @ str ''const id = parseInt(params.id)'' @ y) =
     rule_C x @
     (str ''const { id: paramId } = await params'' @ [10] @ replicate 4 32 @
      str ''const id = parseInt(paramId)'') @
     rule_C y \<and>
   \<not> occurs pat_C (rule_C s) \<and>
   transform (str ''const id = parseInt(params.id)'') =
     str ''const { id: paramId } = await params'' @ [10] @ replicate 4 32 @
     str ''const id = parseInt(paramId)''"
proof (intro conjI)
  show "\<not> occurs pat_C (rule_C s)"
    unfolding rule_C_def using inert_CC by (rule inert_self)
  have r: "str ''const { id: paramId } = await params'' @ [10] @ replicate 4 32 @
      str ''const id = parseInt(paramId)'' = repl_C"
    by (simp add: repl_C_def str_def four_blanks)
  show "rule_C (x @ str ''const id = parseInt(params.id)'' @ y) =
     rule_C x @
     (str ''const { id: paramId } = await params'' @ [10] @ replicate 4 32 @
      str ''const id = parseInt(paramId)'') @
     rule_C y"
    unfolding r by (rule rule_C_occurrence)
  have "transform (str ''const id = parseInt(params.id)'') = repl_C"
    by (simp add: transform_def pat_defs repl_defs)
  then show "transform (str ''const id = parseInt(params.id)'') =
     str ''const { id: paramId } = await params'' @ [10] @ replicate 4 32 @
     str ''const id = parseInt(paramId)''"
    by (simp only: r)
qed

theorem rule_C_rewrites_parseInt_read_witness:
  "rule_C (str ''  const id = parseInt(params.id);'') =
     str ''  const { id: paramId } = await params'' @ [10] @
     str ''    const id = parseInt(paramId);''"
  using rule_C_rewrites_parseInt_read[of "str ''  ''" "str '';''" "[]"]
  by (simp add: rule_C_def pat_defs repl_defs four_blanks)

text \<open>
  C4, as stated, fails for white space before a colon.  In the pattern of Rule A the three
  colons follow \<^verbatim>\<open>}\<close>, \<^verbatim>\<open>params\<close> and \<^verbatim>\<open>id\<close> with no \<^verbatim>\<open>\s*\<close> in between, so a signature
  with a blank between one of these tokens and its colon is matched nowhere: Rule A and
  the whole transform leave it as it is.
\<close>

theorem blank_before_colon_counterexample:
  "spaces (str '' '') \<and>
   \<not> occurs pat_A (str ''{ params } : { params: { id: string } }'') \<and>
   rule_A (str ''{ params } : { params: { id: string } }'') =
     str ''{ params } : { params: { id: string } }'' \<and>
   transform (str ''{ params } : { params: { id: string } }'') =
     str ''{ params } : { params: { id: string } }'' \<and>
   rule_A (str ''{ params }: { params : { id: string } }'') =
     str ''{ params }: { params : { id: string } }'' \<and>
   rule_A (str ''{ params }: { params: { id : string } }'') =
     str ''{ params }: { params: { id : string } }''"
  by (simp add: spaces_def rule_A_def transform_def pat_defs repl_defs is_space_def)

text \<open>
  C4, amended.  Rule A matches the signature \<^verbatim>\<open>{ params }: { params: { id: string } }\<close> with
  any white space, line feeds included, or none at all in each of the nine places where
  it is written with a blank (where the pattern has \<^verbatim>\<open>\s*\<close>): wherever such a signature
  stands in a text, Rule A replaces it by
  \<^verbatim>\<open>{ params }: { params: Promise<{ id: string }> }\<close> and rewrites what stands before and
  behind it on its own.  White space before one of the three colons is not allowed: the
  pattern does not match a text that has it.
\<close>

theorem rule_A_rewrites_signature:
  assumes "spaces w1" "spaces w2" "spaces w3" "spaces w4" "spaces w5"
    and "spaces w6" "spaces w7" "spaces w8" "spaces w9"
  shows "re_match pat_A (signature_A w1 w2 w3 w4 w5 w6 w7 w8 w9 @ y) =
           Some (length (signature_A w1 w2 w3 w4 w5 w6 w7 w8 w9)) \<and>
         rule_A (x @ signature_A w1 w2 w3 w4 w5 w6 w7 w8 w9 @ y) =
           rule_A x @ str ''{ params }: { params: Promise<{ id: string }> }'' @ rule_A y \<and>
         (spaces v \<and> v \<noteq> [] \<longrightarrow>
            re_match pat_A (str ''{'' @ w1 @ str ''params'' @ w2 @ str ''}'' @ v @ z) = None \<and>
            re_match pat_A (str ''{'' @ w1 @ str ''params'' @ w2 @ str ''}:'' @ w3 @ str ''{'' @ w4 @
              str ''params'' @ v @ z) = None \<and>
            re_match pat_A (str ''{'' @ w1 @ str ''params'' @ w2 @ str ''}:'' @ w3 @ str ''{'' @ w4 @
              str ''params:'' @ w5 @ str ''{'' @ w6 @ str ''id'' @ v @ z) = None)"
proof (intro conjI impI)
  show "re_match pat_A (signature_A w1 w2 w3 w4 w5 w6 w7 w8 w9 @ y) =
      Some (length (signature_A w1 w2 w3 w4 w5 w6 w7 w8 w9))"
    using assms by (rule pat_A_matches_signature)
  show "rule_A (x @ signature_A w1 w2 w3 w4 w5 w6 w7 w8 w9 @ y) =
      rule_A x @ str ''{ params }: { params: Promise<{ id: string }> }'' @ rule_A y"
    using rule_A_occurrence[OF assms] by (simp only: repl_A_def)
next
  assume "spaces v \<and> v \<noteq> []"
  then have v: "spaces v" "v \<noteq> []" by simp_all
  show "re_match pat_A (str ''{'' @ w1 @ str ''params'' @ w2 @ str ''}'' @ v @ z) = None"
    by (rule pat_A_needs_colon(1)[OF assms(1-6) v])
  show "re_match pat_A (str ''{'' @ w1 @ str ''params'' @ w2 @ str ''}:'' @ w3 @ str ''{'' @ w4 @
      str ''params'' @ v @ z) = None"
    by (rule pat_A_needs_colon(2)[OF assms(1-6) v])
  show "re_match pat_A (str ''{'' @ w1 @ str ''params'' @ w2 @ str ''}:'' @ w3 @ str ''{'' @ w4 @
      str ''params:'' @ w5 @ str ''{'' @ w6 @ str ''id'' @ v @ z) = None"
    by (rule pat_A_needs_colon(3)[OF assms(1-6) v])
qed

theorem rule_A_rewrites_signature_witness:
  "spaces [] \<and> spaces (str '' '') \<and> spaces [10, 32, 32] \<and> spaces [9] \<and>
   rule_A (str ''GET(req, '' @
       signature_A [] [] (str '' '') [10, 32, 32] (str '' '') [] [9] [] [10] @ str '')'') =
     str ''GET(req, { params }: { params: Promise<{ id: string }> })'' \<and>
   re_match pat_A (str ''{params} : {params: {id: string}}'') = None"
proof -
  have sp: "spaces []" "spaces (str '' '')" "spaces [10, 32, 32]" "spaces [9]" "spaces [10]"
    by (simp_all add: spaces_def is_space_def str_def)
  have e: "rule_A (str ''GET(req, '') = str ''GET(req, ''" "rule_A (str '')'') = str '')''"
    by (simp_all add: rule_A_def pat_defs repl_defs)
  have n: "str '' '' \<noteq> []" by (simp add: str_def)
  from sp e n show ?thesis
    using rule_A_rewrites_signature[of "[]" "[]" "str '' ''" "[10, 32, 32]" "str '' ''" "[]" "[9]"
        "[]" "[10]" "str '')''" "str ''GET(req, ''" "str '' ''" "str '': {params: {id: string}}''"]
    by (simp add: str_def)
qed






text \<open>
  C7.  The transform is Rule A, then Rule B, then Rule C, then Rule D, then Rule E, each
  applied to the text the rule before it produced; and each step replaces all
  non-overlapping occurrences of its pattern, found from the left: a text \<open>t'\<close> is the
  transform of \<open>t\<close> exactly when it is reached from \<open>t\<close> through four texts by replacing
  the occurrences of the five patterns in this order.
\<close>

theorem transform_is_the_rule_pipeline:
  "transform t = rule_E (rule_D (rule_C (rule_B (rule_A t)))) \<and>
   (transform t = t' \<longleftrightarrow>
      (\<exists>t1 t2 t3 t4.
         replaced pat_A repl_A t t1 \<and> replaced pat_B repl_B t1 t2 \<and>
         replaced pat_C repl_C t2 t3 \<and> replaced pat_D repl_D t3 t4 \<and>
         replaced pat_E repl_E t4 t'))"
proof -
  have r: "replaced pat_A repl_A u v \<longleftrightarrow> v = rule_A u"
    "replaced pat_B repl_B u v \<longleftrightarrow> v = rule_B u"
    "replaced pat_C repl_C u v \<longleftrightarrow> v = rule_C u"
    "replaced pat_D repl_D u v \<longleftrightarrow> v = rule_D u"
    "replaced pat_E repl_E u v \<longleftrightarrow> v = rule_E u" for u v
    unfolding rule_A_def rule_B_def rule_C_def rule_D_def rule_E_def
    by (rule replaced_iff, simp add: pat_defs)+
  show ?thesis
    unfolding r by (auto simp: transform_rules)
qed

theorem transform_is_the_rule_pipeline_witness:
  "\<exists>t1 t2 t3 t4.
     replaced pat_A repl_A (str ''const id = params.idx'') t1 \<and>
     replaced pat_B repl_B t1 t2 \<and> replaced pat_C repl_C t2 t3 \<and>
     replaced pat_D repl_D t3 t4 \<and>
     replaced pat_E repl_E t4 (str ''const { id } = await paramsx'')"
proof -
  have "transform (str ''const id = params.idx'') = str ''const { id } = await paramsx''"
    by (simp add: transform_def pat_defs repl_defs)
  moreover have "transform (str ''const id = params.idx'') = str ''const { id } = await paramsx'' \<longleftrightarrow>
      (\<exists>t1 t2 t3 t4.
         replaced pat_A repl_A (str ''const id = params.idx'') t1 \<and>
         replaced pat_B repl_B t1 t2 \<and> replaced pat_C repl_C t2 t3 \<and>
         replaced pat_D repl_D t3 t4 \<and>
         replaced pat_E repl_E t4 (str ''const { id } = await paramsx''))"
    using transform_is_the_rule_pipeline[of "str ''const id = params.idx''"
        "str ''const { id } = await paramsx''"]
    by (rule conjunct2)
  ultimately show ?thesis by (rule iffD1[rotated])
qed

text \<open>
  C8.  The calls the run makes are, path by path in the order of the list, a read of the
  path, followed or not by a write of the same path; so every call is on a listed path.
  The list has eleven paths, all different, none starting with a slash.  What any file
  outside the list holds is the same after the run as before it.
\<close>

theorem run_touches_listed_paths_only:
  "(\<exists>turns.
      calls (main w) = calls w @ concat turns \<and>
      list_all2 (\<lambda>p turn. turn = [OpenRead p] \<or> (\<exists>c. turn = [OpenRead p, OpenWrite p c]))
        files_to_fix turns \<and>
      (\<forall>c\<in>set (concat turns). call_path c \<in> set files_to_fix)) \<and>
   (\<forall>p. p \<notin> set files_to_fix \<longrightarrow> disk (main w) p = disk w p) \<and>
   length files_to_fix = 11 \<and> distinct files_to_fix \<and>
   (\<forall>p\<in>set files_to_fix. \<not> prefix (str ''/'') p)"
proof (intro conjI)
  show "\<exists>turns.
      calls (main w) = calls w @ concat turns \<and>
      list_all2 (\<lambda>p turn. turn = [OpenRead p] \<or> (\<exists>c. turn = [OpenRead p, OpenWrite p c]))
        files_to_fix turns \<and>
      (\<forall>c\<in>set (concat turns). call_path c \<in> set files_to_fix)"
  proof (intro exI conjI)
    show "calls (main w) = calls w @ concat (map (accesses w) files_to_fix)"
      by (simp add: main_eq)
    show "list_all2 (\<lambda>p turn. turn = [OpenRead p] \<or> (\<exists>c. turn = [OpenRead p, OpenWrite p c]))
        files_to_fix (map (accesses w) files_to_fix)"
      by (simp add: list_all2_map2 list_all2_same accesses_def split: sum.splits)
    show "\<forall>c\<in>set (concat (map (accesses w) files_to_fix)). call_path c \<in> set files_to_fix"
      by (auto dest: accesses_path)
  qed
  show "\<forall>p. p \<notin> set files_to_fix \<longrightarrow> disk (main w) p = disk w p"
    by (simp add: main_eq)
  show "length files_to_fix = 11" by (simp add: files_to_fix_def)
  show "distinct files_to_fix" by (rule distinct_files)
  show "\<forall>p\<in>set files_to_fix. \<not> prefix (str ''/'') p"
    by (simp add: files_to_fix_def str_def)
qed

theorem run_touches_listed_paths_only_witness:
  "str ''package.json'' \<notin> set files_to_fix \<and>
   disk (main sample_world) (str ''package.json'') = Inl FileNotFoundError \<and>
   disk (main (sample_world\<lparr>disk := (\<lambda>p. Inr (str ''const id = params.id''))\<rparr>))
     (str ''package.json'') = Inr (str ''const id = params.id'')"
proof -
  have n: "str ''package.json'' \<notin> set files_to_fix"
    by (simp add: files_to_fix_def str_def)
  have d: "disk sample_world (str ''package.json'') = Inl FileNotFoundError"
    by (simp add: sample_world_def str_def)
  show ?thesis
    using run_touches_listed_paths_only[of sample_world]
      run_touches_listed_paths_only[of "sample_world\<lparr>disk := (\<lambda>p. Inr (str ''const id = params.id''))\<rparr>"]
      n d
    by simp
qed



text \<open>
  C10.  The lookahead of Rule D excludes a closing parenthesis and nothing else, so the
  rule also fires when \<^verbatim>\<open>.id\<close> only starts a longer property name: the transform turns
  \<^verbatim>\<open>const id = params.idx\<close> into \<^verbatim>\<open>const { id } = await paramsx\<close>, and a file that holds
  this text and can be written is overwritten with the rewritten text and reported as
  fixed.
\<close>

theorem rule_D_rewrites_longer_property_name:
  "transform (str ''const id = params.idx'') = str ''const { id } = await paramsx'' \<and>
   (disk w p = Inr (str ''const id = params.idx'') \<and> write_fault w p = None \<longrightarrow>
      process_file p w =
        w\<lparr>disk := (disk w)(p := Inr (str ''const { id } = await paramsx'')),
          stdout := stdout w @ fixed_msg p @ [10],
          calls := calls w @ [OpenRead p, OpenWrite p (str ''const { id } = await paramsx'')]\<rparr>)"
proof (intro conjI impI)
  show t: "transform (str ''const id = params.idx'') = str ''const { id } = await paramsx''"
    by (simp add: transform_def pat_defs repl_defs)
  assume a: "disk w p = Inr (str ''const id = params.idx'') \<and> write_fault w p = None"
  have ne: "transform (str ''const id = params.idx'') \<noteq> str ''const id = params.idx''"
    unfolding t by (simp add: str_def)
  from a have "process_file p w =
        w\<lparr>disk := (disk w)(p := Inr (transform (str ''const id = params.idx''))),
          stdout := stdout w @ fixed_msg p @ [10],
          calls := calls w @ [OpenRead p, OpenWrite p (transform (str ''const id = params.idx''))]\<rparr>"
    by (intro process_file_fixed ne) simp_all
  then show "process_file p w =
        w\<lparr>disk := (disk w)(p := Inr (str ''const { id } = await paramsx'')),
          stdout := stdout w @ fixed_msg p @ [10],
          calls := calls w @ [OpenRead p, OpenWrite p (str ''const { id } = await paramsx'')]\<rparr>"
    by (simp only: t)
qed

theorem rule_D_rewrites_longer_property_name_witness:
  "stdout (process_file (str ''src/app/api/series/[id]/route.ts'')
      \<lparr>disk = (\<lambda>p. Inr (str ''const id = params.idx'')), write_fault = (\<lambda>p. None),
        stdout = [], calls = []\<rparr>) =
     [9989] @ str '' Fixed: src/app/api/series/[id]/route.ts'' @ [10]"
  using rule_D_rewrites_longer_property_name[of
      "\<lparr>disk = (\<lambda>p. Inr (str ''const id = params.idx'')), write_fault = (\<lambda>p. None),
        stdout = [], calls = []\<rparr>" "str ''src/app/api/series/[id]/route.ts''"]
  by (simp add: fixed_msg_def str_def)

end
